theory Spec2Isabelle
  imports Complex_Main
begin

section \<open>The long-poll broadcaster of \<^verbatim>\<open>server/long-pollers/models.js\<close>\<close>

text \<open>
  The class \<^verbatim>\<open>LongPollers\<close> keeps two fields: the array \<^verbatim>\<open>_responses\<close> of parked
  response objects and \<^verbatim>\<open>_lastMessage\<close>, which is \<^verbatim>\<open>null\<close> or the object
  \<^verbatim>\<open>{message, time}\<close> of the latest broadcast. Everything else it touches belongs to the
  platform: the response objects (\<^verbatim>\<open>res.json\<close>, \<^verbatim>\<open>res.on\<close>, \<^verbatim>\<open>res.removeListener\<close>),
  \<^verbatim>\<open>Date.now()\<close>, \<^verbatim>\<open>Number(...)\<close> and \<^verbatim>\<open>console.log\<close>. The model is one record, the
  world: the two fields of the object, a store of response objects indexed by their
  identity (the same object may sit in the array twice, so identity matters), and the
  console. Every method takes the world and returns an outcome: the world it leaves
  behind, together with the exception when it throws. The payload of a broadcast is
  any value of the application; the model keeps what matters to \<^verbatim>\<open>res.json\<close>, whether
  \<^verbatim>\<open>JSON.stringify\<close> accepts it.
\<close>

subsection \<open>JavaScript numbers, as far as the class uses them\<close>

text \<open>
  The class never computes with a number. It tests one for truthiness (\<^verbatim>\<open>||\<close>) and
  compares two with \<^verbatim>\<open>!=\<close>. For these two operations a double is \<^verbatim>\<open>NaN\<close>, an infinity or
  a rational; both zeros are \<open>Finite 0\<close>.
\<close>

datatype number = NaN | PosInfinity | NegInfinity | Finite rat

definition truthy :: "number \<Rightarrow> bool" where
  "truthy n = (n \<noteq> NaN \<and> n \<noteq> Finite 0)"

definition or_js :: "number \<Rightarrow> number \<Rightarrow> number" where
  \<comment> \<open>\<^verbatim>\<open>a || b\<close>\<close>
  "or_js a b = (if truthy a then a else b)"

definition neq_js :: "number \<Rightarrow> number \<Rightarrow> bool" where
  \<comment> \<open>\<^verbatim>\<open>a != b\<close> on two numbers: \<^verbatim>\<open>NaN\<close> differs from everything, itself included\<close>
  "neq_js a b = (a = NaN \<or> b = NaN \<or> a \<noteq> b)"

subsection \<open>Data\<close>

type_synonym res = nat
  \<comment> \<open>the identity of a response object\<close>

record req =
  Number_lastMessageTime :: number
  \<comment> \<open>the value of \<^verbatim>\<open>Number(req.query.lastMessageTime)\<close>: \<^verbatim>\<open>NaN\<close> when the parameter is
      missing (\<^verbatim>\<open>Number(undefined)\<close>) or is not numeric text\<close>

datatype 'm payload = Serialisable 'm | Unserialisable 'm
  \<comment> \<open>the argument of \<^verbatim>\<open>broadcast\<close>: a value that \<^verbatim>\<open>JSON.stringify\<close> turns into text, or one
      on which it throws (an object that contains itself, a BigInt)\<close>

record 'm msg =
  message :: "'m payload"
  time :: int
  \<comment> \<open>\<^verbatim>\<open>{message, time: Date.now()}\<close>; \<^verbatim>\<open>Date.now()\<close> is a whole number of milliseconds\<close>

datatype event = Finish | Close

datatype listener = ConnectionEnded nat res
  \<comment> \<open>the closure \<^verbatim>\<open>connectionEnded\<close> made by one call of \<^verbatim>\<open>add\<close>: a serial number, which
      gives the function object its identity, and the \<^verbatim>\<open>res\<close> it captures\<close>

datatype error = TypeError res | HeadersSent res
  \<comment> \<open>what \<^verbatim>\<open>res.json\<close> throws, with the response it was called on: the error of
      \<^verbatim>\<open>JSON.stringify\<close> on a body it cannot serialise, and the error of setting a header
      on a response that was completed before\<close>

record 'm response =
  headersSent :: bool
  sent :: "'m msg option list"
  listeners :: "event \<Rightarrow> listener list"

record 'm world =
  priv_responses :: "res list"
  priv_lastMessage :: "'m msg option"
  heap :: "res \<Rightarrow> 'm response"
  console :: "error list"
  closures :: nat

datatype 'm outcome = Returned "'m world" | Thrown error "'m world"

fun world_of :: "'m outcome \<Rightarrow> 'm world" where
  "world_of (Returned w) = w"
| "world_of (Thrown e w) = w"

fun returned :: "'m outcome \<Rightarrow> bool" where
  "returned (Returned w) = True"
| "returned (Thrown e w) = False"

subsection \<open>The platform: response objects and the console\<close>

text \<open>
  \<^verbatim>\<open>res.json(body)\<close> of Express first runs \<^verbatim>\<open>JSON.stringify\<close> on the body, then sets the
  content type, writes the text and completes the response. When \<^verbatim>\<open>JSON.stringify\<close> throws,
  nothing has been touched yet; \<^verbatim>\<open>null\<close> and the number \<^verbatim>\<open>time\<close> always serialise, so this
  depends on the payload alone. On a response that is already completed, setting the
  header throws, and nothing is written. Node emits \<^verbatim>\<open>finish\<close> and \<^verbatim>\<open>close\<close> from the
  event loop, after the call that completed the response has returned, so no listener
  runs inside \<^verbatim>\<open>json\<close>.
\<close>

definition stringifies :: "'m msg option \<Rightarrow> bool" where
  \<comment> \<open>\<^verbatim>\<open>JSON.stringify(body)\<close> returns\<close>
  "stringifies body =
     (case body of
        None \<Rightarrow> True
      | Some m \<Rightarrow> (case message m of Serialisable x \<Rightarrow> True | Unserialisable x \<Rightarrow> False))"

definition json :: "res \<Rightarrow> 'm msg option \<Rightarrow> 'm world \<Rightarrow> 'm outcome" where
  "json r body w =
     (if \<not> stringifies body then Thrown (TypeError r) w
      else if headersSent (heap w r) then Thrown (HeadersSent r) w
      else Returned (w\<lparr>heap := (heap w)(r := (heap w r)
             \<lparr>headersSent := True, sent := sent (heap w r) @ [body]\<rparr>)\<rparr>))"

definition console_log :: "error \<Rightarrow> 'm world \<Rightarrow> 'm world" where
  "console_log err w = w\<lparr>console := console w @ [err]\<rparr>"

definition on :: "res \<Rightarrow> event \<Rightarrow> listener \<Rightarrow> 'm world \<Rightarrow> 'm world" where
  \<comment> \<open>\<^verbatim>\<open>res.on(ev, f)\<close> appends \<open>f\<close> to the listeners of \<open>ev\<close>\<close>
  "on r ev f w =
     w\<lparr>heap := (heap w)(r := (heap w r)
        \<lparr>listeners := (listeners (heap w r))(ev := listeners (heap w r) ev @ [f])\<rparr>)\<rparr>"

definition remove_last :: "'a \<Rightarrow> 'a list \<Rightarrow> 'a list" where
  \<comment> \<open>drops the occurrence of \<open>x\<close> that was added last\<close>
  "remove_last x xs = rev (remove1 x (rev xs))"

definition removeListener :: "res \<Rightarrow> event \<Rightarrow> listener \<Rightarrow> 'm world \<Rightarrow> 'm world" where
  \<comment> \<open>\<^verbatim>\<open>res.removeListener(ev, f)\<close> removes one instance of \<open>f\<close>, the most recent one\<close>
  "removeListener r ev f w =
     w\<lparr>heap := (heap w)(r := (heap w r)
        \<lparr>listeners := (listeners (heap w r))(ev := remove_last f (listeners (heap w r) ev))\<rparr>)\<rparr>"

subsection \<open>Arrays\<close>

fun indexOf :: "'a list \<Rightarrow> 'a \<Rightarrow> int" where
  "indexOf [] x = - 1"
| "indexOf (y # ys) x =
     (if y = x then 0 else (let i = indexOf ys x in if i = - 1 then - 1 else i + 1))"

definition splice_js :: "'a list \<Rightarrow> int \<Rightarrow> nat \<Rightarrow> 'a list" where
  \<comment> \<open>the array after \<^verbatim>\<open>xs.splice(start, count)\<close>: a negative start counts from the end\<close>
  "splice_js xs start count =
     (let len = int (length xs);
          s = nat (if start < 0 then max (len + start) 0 else min start len)
      in take s xs @ drop (s + count) xs)"

subsection \<open>The class\<close>

definition constructor :: "(res \<Rightarrow> 'm response) \<Rightarrow> 'm world" where
  \<comment> \<open>\<^verbatim>\<open>new LongPollers()\<close> in a process whose responses are \<open>h\<close>\<close>
  "constructor h =
     \<lparr>priv_responses = [], priv_lastMessage = None, heap = h, console = [], closures = 0\<rparr>"

definition lastMessage :: "'m world \<Rightarrow> 'm msg option" where
  "lastMessage w = priv_lastMessage w"

definition lastMessageTime :: "'m world \<Rightarrow> int" where
  \<comment> \<open>\<^verbatim>\<open>this._lastMessage ? this._lastMessage.time : 0\<close>; an object is always truthy\<close>
  "lastMessageTime w = (case priv_lastMessage w of None \<Rightarrow> 0 | Some m \<Rightarrow> time m)"

definition deliver :: "res \<Rightarrow> 'm world \<Rightarrow> 'm outcome" where
  \<comment> \<open>the loop body: \<^verbatim>\<open>try { res.json(this._lastMessage); } catch (err) { console.log(err); }\<close>\<close>
  "deliver r w =
     (case json r (priv_lastMessage w) w of
        Returned w' \<Rightarrow> Returned w'
      | Thrown err w' \<Rightarrow> Returned (console_log err w'))"

text \<open>
  \<^verbatim>\<open>for (const res of this._responses)\<close> walks the array with an index and reads the
  array anew at every step: it stops when the index reaches the current length.
\<close>

function for_of :: "nat \<Rightarrow> 'm world \<Rightarrow> 'm outcome" where
  "for_of i w =
     (if i < length (priv_responses w) then
        (case deliver (priv_responses w ! i) w of
           Returned w' \<Rightarrow> for_of (Suc i) w'
         | Thrown err w' \<Rightarrow> Thrown err w')
      else Returned w)"
  by pat_completeness auto
termination
  by (relation "measure (\<lambda>(i, w). length (priv_responses w) - i)")
     (auto simp: deliver_def json_def console_log_def split: if_splits)

definition broadcast :: "'m payload \<Rightarrow> int \<Rightarrow> 'm world \<Rightarrow> 'm outcome" where
  \<comment> \<open>\<open>now\<close> is what \<^verbatim>\<open>Date.now()\<close> returns in this call\<close>
  "broadcast m now w =
     for_of 0 (w\<lparr>priv_lastMessage := Some \<lparr>message = m, time = now\<rparr>\<rparr>)"

fun connectionEnded :: "listener \<Rightarrow> 'm world \<Rightarrow> 'm world" where
  "connectionEnded (ConnectionEnded k r) w =
     (let w1 = removeListener r Finish (ConnectionEnded k r) w;
          w2 = removeListener r Close (ConnectionEnded k r) w1;
          index = indexOf (priv_responses w2) r
      in if index \<noteq> - 1 then w2\<lparr>priv_responses := splice_js (priv_responses w2) index 1\<rparr>
         else w2)"

definition queryMessageTime :: "req \<Rightarrow> number" where
  \<comment> \<open>\<^verbatim>\<open>Number(req.query.lastMessageTime) || 0\<close>\<close>
  "queryMessageTime rq = or_js (Number_lastMessageTime rq) (Finite 0)"

definition add :: "req \<Rightarrow> res \<Rightarrow> 'm world \<Rightarrow> 'm outcome" where
  "add rq r w =
     (if neq_js (queryMessageTime rq) (Finite (of_int (lastMessageTime w)))
      then json r (priv_lastMessage w) w
      else
        (let w1 = w\<lparr>priv_responses := priv_responses w @ [r]\<rparr>;
             f = ConnectionEnded (closures w1) r;
             w2 = w1\<lparr>closures := Suc (closures w1)\<rparr>;
             w3 = on r Finish f w2;
             w4 = on r Close f w3
         in Returned w4))"

subsection \<open>Events\<close>

text \<open>
  \<^verbatim>\<open>res.emit(ev)\<close> calls the listeners that are registered for \<open>ev\<close> at that moment, in
  the order of their registration; a listener removed by an earlier one in the same
  round is still called. The only listeners of the model are the closures of \<^verbatim>\<open>add\<close>.
\<close>

definition emit :: "res \<Rightarrow> event \<Rightarrow> 'm world \<Rightarrow> 'm world" where
  "emit r ev w = fold connectionEnded (listeners (heap w r) ev) w"

definition respond_elsewhere :: "res \<Rightarrow> 'm world \<Rightarrow> 'm world" where
  \<comment> \<open>code outside the class completes the response\<close>
  "respond_elsewhere r w = w\<lparr>heap := (heap w)(r := (heap w r)\<lparr>headersSent := True\<rparr>)\<rparr>"

subsection \<open>Runs\<close>

text \<open>
  What can happen to a broadcaster, one step at a time: the producer calls
  \<^verbatim>\<open>broadcast\<close>, the HTTP layer calls \<^verbatim>\<open>add\<close>, Node fires \<^verbatim>\<open>finish\<close> or \<^verbatim>\<open>close\<close> on a
  response, or code outside the class completes a response. An exception that leaves
  \<^verbatim>\<open>add\<close> goes to the caller; the run goes on from the world it leaves behind. A run
  starts from \<^verbatim>\<open>new LongPollers()\<close> with every response untouched.
\<close>

datatype 'm op =
    Broadcast "'m payload" int
  | Add req res
  | Emit res event
  | Respond res

fun step :: "'m op \<Rightarrow> 'm world \<Rightarrow> 'm world" where
  "step (Broadcast m now) w = world_of (broadcast m now w)"
| "step (Add rq r) w = world_of (add rq r w)"
| "step (Emit r ev) w = emit r ev w"
| "step (Respond r) w = respond_elsewhere r w"

definition fresh_response :: "'m response" where
  "fresh_response = \<lparr>headersSent = False, sent = [], listeners = (\<lambda>ev. [])\<rparr>"

definition start :: "'m world" where
  "start = constructor (\<lambda>r. fresh_response)"

definition run :: "'m op list \<Rightarrow> 'm world \<Rightarrow> 'm world" where
  "run ops w = fold step ops w"

subsection \<open>Notions for stating and proving the properties\<close>

text \<open>
  The loop of \<^verbatim>\<open>broadcast\<close> unrolled over the array it finds at its entry; \<open>for_of\<close> is
  proved equal to it below.
\<close>

primrec fanout :: "res list \<Rightarrow> 'm world \<Rightarrow> 'm world" where
  "fanout [] w = w"
| "fanout (r # rs) w = fanout rs (world_of (deliver r w))"

text \<open>
  The errors that one fan-out over \<open>rs\<close> logs, in order, when \<open>ended\<close> tells which
  responses are completed at its entry and \<open>ok\<close> whether the message serialises. When
  it does not, every entry fails. When it does, an entry fails when its response was
  completed before the loop or by an earlier entry of the same loop.
\<close>

primrec failures :: "res list \<Rightarrow> (res \<Rightarrow> bool) \<Rightarrow> bool \<Rightarrow> error list" where
  "failures [] ended ok = []"
| "failures (r # rs) ended ok =
     (if \<not> ok then TypeError r # failures rs ended ok
      else if ended r then HeadersSent r # failures rs ended ok
      else failures rs (ended(r := True)) ok)"

text \<open>
  The invariant of every run: a response carries the same closures for both events, each
  one once, all made by \<^verbatim>\<open>add\<close> for this response, and as many as the response has
  entries in the array.
\<close>

definition consistent :: "'m world \<Rightarrow> bool" where
  "consistent w =
     (\<forall>r. listeners (heap w r) Close = listeners (heap w r) Finish \<and>
          distinct (listeners (heap w r) Finish) \<and>
          (\<forall>c \<in> set (listeners (heap w r) Finish). \<exists>k < closures w. c = ConnectionEnded k r) \<and>
          length (listeners (heap w r) Finish) = count_list (priv_responses w) r)"

text \<open>A run in which no call of \<^verbatim>\<open>add\<close> passes a response that is in the array at that moment.\<close>

fun no_repark :: "'m op list \<Rightarrow> 'm world \<Rightarrow> bool" where
  "no_repark [] w = True"
| "no_repark (Add rq r # ops) w =
     (r \<notin> set (priv_responses w) \<and> no_repark ops (step (Add rq r) w))"
| "no_repark (op # ops) w = no_repark ops (step op w)"

text \<open>The values \<^verbatim>\<open>Date.now()\<close> returned to the broadcasts of a run, in order.\<close>

fun clock_readings :: "'m op list \<Rightarrow> int list" where
  "clock_readings [] = []"
| "clock_readings (Broadcast m now # ops) = now # clock_readings ops"
| "clock_readings (op # ops) = clock_readings ops"

text \<open>What \<^verbatim>\<open>lastMessageTime\<close> returns right after each broadcast of a run, in order.\<close>

fun stored_times :: "'m op list \<Rightarrow> 'm world \<Rightarrow> int list" where
  "stored_times [] w = []"
| "stored_times (Broadcast m now # ops) w =
     lastMessageTime (step (Broadcast m now) w) # stored_times ops (step (Broadcast m now) w)"
| "stored_times (op # ops) w = stored_times ops (step op w)"

section \<open>Auxiliary facts\<close>

declare for_of.simps [simp del]

subsection \<open>The fan-out loop\<close>

lemma deliver_eq:
  "deliver r w = Returned
     (if \<not> stringifies (priv_lastMessage w) then w\<lparr>console := console w @ [TypeError r]\<rparr>
      else if headersSent (heap w r) then w\<lparr>console := console w @ [HeadersSent r]\<rparr>
      else w\<lparr>heap := (heap w)(r := (heap w r)
             \<lparr>headersSent := True, sent := sent (heap w r) @ [priv_lastMessage w]\<rparr>)\<rparr>)"
  by (simp add: deliver_def json_def console_log_def)

lemma deliver_frame:
  "priv_responses (world_of (deliver r w)) = priv_responses w"
  "priv_lastMessage (world_of (deliver r w)) = priv_lastMessage w"
  "closures (world_of (deliver r w)) = closures w"
  "listeners (heap (world_of (deliver r w)) h) = listeners (heap w h)"
  by (simp_all add: deliver_eq)

lemma for_of_fanout:
  "for_of i w = Returned (fanout (drop i (priv_responses w)) w)"
proof (induction i w rule: for_of.induct)
  case (1 i w)
  show ?case
  proof (cases "i < length (priv_responses w)")
    case True
    obtain w' where d: "deliver (priv_responses w ! i) w = Returned w'"
      by (simp add: deliver_eq)
    have p: "priv_responses w' = priv_responses w"
      using deliver_frame(1) [of "priv_responses w ! i" w] d by simp
    have "for_of i w = for_of (Suc i) w'"
      using True d by (subst for_of.simps) simp
    also have "\<dots> = Returned (fanout (drop (Suc i) (priv_responses w')) w')"
      using "1.IH" [OF True d] .
    also have "fanout (drop (Suc i) (priv_responses w')) w' = fanout (drop i (priv_responses w)) w"
      using True d p by (simp add: Cons_nth_drop_Suc [symmetric])
    finally show ?thesis .
  next
    case False
    then show ?thesis by (subst for_of.simps) simp
  qed
qed

lemma fanout_frame:
  "priv_responses (fanout rs w) = priv_responses w"
  "priv_lastMessage (fanout rs w) = priv_lastMessage w"
  "closures (fanout rs w) = closures w"
  "listeners (heap (fanout rs w) h) = listeners (heap w h)"
  by (induction rs arbitrary: w; simp add: deliver_frame)+

lemma fanout_headersSent:
  "headersSent (heap (fanout rs w) h) =
     (headersSent (heap w h) \<or> (h \<in> set rs \<and> stringifies (priv_lastMessage w)))"
  by (induction rs arbitrary: w) (auto simp: deliver_eq)

lemma fanout_sent:
  "sent (heap (fanout rs w) h) =
     sent (heap w h) @
     (if h \<in> set rs \<and> \<not> headersSent (heap w h) \<and> stringifies (priv_lastMessage w)
      then [priv_lastMessage w] else [])"
  by (induction rs arbitrary: w) (auto simp: deliver_eq)

lemma fanout_console:
  "console (fanout rs w) =
     console w @ failures rs (\<lambda>r. headersSent (heap w r)) (stringifies (priv_lastMessage w))"
proof (induction rs arbitrary: w)
  case Nil
  show ?case by simp
next
  case (Cons r rs)
  show ?case
  proof (cases "\<not> stringifies (priv_lastMessage w) \<or> headersSent (heap w r)")
    case True
    then show ?thesis by (auto simp: Cons.IH deliver_eq)
  next
    case False
    have "(\<lambda>h. h \<noteq> r \<longrightarrow> headersSent (heap w h)) = (\<lambda>h. headersSent (heap w h))(r := True)"
      by auto
    with False show ?thesis by (simp add: Cons.IH deliver_eq)
  qed
qed

lemma failures_set:
  "e \<in> set (failures rs ended ok) \<Longrightarrow> \<exists>r \<in> set rs. e = TypeError r \<or> e = HeadersSent r"
proof (induction rs arbitrary: ended)
  case Nil
  then show ?case by simp
next
  case (Cons r rs)
  show ?case
  proof (cases "e = TypeError r \<or> e = HeadersSent r")
    case True
    then show ?thesis by auto
  next
    case False
    with Cons.prems have "e \<in> set (failures rs ended ok) \<or> e \<in> set (failures rs (ended(r := True)) ok)"
      by (auto split: if_splits)
    with Cons.IH show ?thesis by auto
  qed
qed

lemma failures_not_ok: "failures rs ended False = map TypeError rs"
  by (induction rs) simp_all

lemma failures_mem:
  "r \<in> set rs \<Longrightarrow> ended r \<Longrightarrow> HeadersSent r \<in> set (failures rs ended True)"
proof (induction rs arbitrary: ended)
  case Nil
  then show ?case by simp
next
  case (Cons x rs)
  define e where "e = ended(x := True)"
  have unfold: "failures (x # rs) ended True =
      (if ended x then HeadersSent x # failures rs ended True else failures rs e True)"
    by (simp add: e_def)
  show ?case
  proof (cases "x = r")
    case True
    with Cons.prems unfold show ?thesis by simp
  next
    case False
    with Cons.prems have m: "r \<in> set rs" by simp
    have er: "e r" using Cons.prems(2) by (simp add: e_def)
    have "HeadersSent r \<in> set (failures rs ended True)"
      using m Cons.prems(2) by (rule Cons.IH)
    moreover have "HeadersSent r \<in> set (failures rs e True)"
      using m er by (rule Cons.IH)
    ultimately show ?thesis unfolding unfold by simp
  qed
qed

lemma failures_length_ok:
  "length (failures rs ended True) + card {r \<in> set rs. \<not> ended r} = length rs"
proof (induction rs arbitrary: ended)
  case Nil
  show ?case by simp
next
  case (Cons r rs)
  define e where "e = ended(r := True)"
  have unfold: "failures (r # rs) ended True =
      (if ended r then HeadersSent r # failures rs ended True else failures rs e True)"
    by (simp add: e_def)
  show ?case
  proof (cases "ended r")
    case True
    then have "{x \<in> set (r # rs). \<not> ended x} = {x \<in> set rs. \<not> ended x}"
      by auto
    with True Cons.IH [of ended] show ?thesis unfolding unfold by simp
  next
    case False
    have "{x \<in> set (r # rs). \<not> ended x} = insert r {x \<in> set rs. \<not> e x}"
      using False by (auto simp: e_def)
    moreover have "r \<notin> {x \<in> set rs. \<not> e x}" by (simp add: e_def)
    moreover have "finite {x \<in> set rs. \<not> e x}" by simp
    ultimately have "card {x \<in> set (r # rs). \<not> ended x}
        = Suc (card {x \<in> set rs. \<not> e x})"
      using card_insert_disjoint [of "{x \<in> set rs. \<not> e x}" r] by presburger
    moreover have "length (failures rs e True) + card {x \<in> set rs. \<not> e x} = length rs"
      by (rule Cons.IH)
    ultimately show ?thesis using False unfolding unfold by simp
  qed
qed

lemma failures_length:
  "length (failures rs ended ok) + card {r \<in> set rs. ok \<and> \<not> ended r} = length rs"
proof (cases ok)
  case True
  then show ?thesis using failures_length_ok [of rs ended] by simp
next
  case False
  then show ?thesis by (simp add: failures_not_ok)
qed

subsection \<open>Removal from the array\<close>

lemma indexOf_ge: "- 1 \<le> indexOf xs x"
  by (induction xs) (auto simp: Let_def)

lemma indexOf_none: "(indexOf xs x = - 1) = (x \<notin> set xs)"
proof (induction xs)
  case Nil
  show ?case by simp
next
  case (Cons y ys)
  have "- 1 \<le> indexOf ys x" by (rule indexOf_ge)
  with Cons show ?case by (auto simp: Let_def)
qed

lemma indexOf_bound: "x \<in> set xs \<Longrightarrow> 0 \<le> indexOf xs x \<and> indexOf xs x < int (length xs)"
proof (induction xs)
  case Nil
  then show ?case by simp
next
  case (Cons y ys)
  then show ?case by (auto simp: Let_def indexOf_none)
qed

lemma splice_js_indexOf: "x \<in> set xs \<Longrightarrow> splice_js xs (indexOf xs x) (Suc 0) = remove1 x xs"
proof (induction xs)
  case Nil
  then show ?case by simp
next
  case (Cons y ys)
  show ?case
  proof (cases "y = x")
    case True
    then show ?thesis by (simp add: splice_js_def)
  next
    case False
    with Cons.prems have m: "x \<in> set ys" by simp
    from indexOf_bound [OF m] have b: "0 \<le> indexOf ys x" "indexOf ys x < int (length ys)"
      by simp_all
    have n: "indexOf ys x \<noteq> - 1" using b by simp
    have "splice_js ys (indexOf ys x) (Suc 0) = remove1 x ys" using Cons.IH [OF m] .
    moreover have "nat (indexOf ys x + 1) = Suc (nat (indexOf ys x))" using b by simp
    ultimately show ?thesis
      using False b n by (simp add: splice_js_def Let_def min_def)
  qed
qed

lemma connectionEnded_responses:
  "priv_responses (connectionEnded (ConnectionEnded k r) w) = remove1 r (priv_responses w)"
proof (cases "r \<in> set (priv_responses w)")
  case True
  then show ?thesis
    by (simp add: Let_def removeListener_def indexOf_none splice_js_indexOf)
next
  case False
  then show ?thesis
    by (simp add: Let_def removeListener_def indexOf_none remove1_idem)
qed

lemma connectionEnded_frame:
  "priv_lastMessage (connectionEnded c w) = priv_lastMessage w"
  "console (connectionEnded c w) = console w"
  "closures (connectionEnded c w) = closures w"
  "headersSent (heap (connectionEnded c w) h) = headersSent (heap w h)"
  "sent (heap (connectionEnded c w) h) = sent (heap w h)"
  by (cases c; simp add: Let_def removeListener_def)+

lemma connectionEnded_listeners:
  "listeners (heap (connectionEnded (ConnectionEnded k r) w) h) ev =
     (if h = r then remove_last (ConnectionEnded k r) (listeners (heap w r) ev)
      else listeners (heap w h) ev)"
  by (cases ev) (simp_all add: Let_def removeListener_def)

declare connectionEnded.simps [simp del]

subsection \<open>Events and the invariant\<close>

lemma remove_last_distinct: "distinct xs \<Longrightarrow> remove_last x xs = remove1 x xs"
proof -
  assume d: "distinct xs"
  then have "remove1 x (rev xs) = removeAll x (rev xs)"
    by (simp add: distinct_remove1_removeAll)
  also have "\<dots> = rev (removeAll x xs)"
    by (simp add: removeAll_filter_not_eq rev_filter)
  finally show ?thesis
    using d by (simp add: remove_last_def distinct_remove1_removeAll)
qed

lemma fold_remove1_prefix: "distinct (cs @ ys) \<Longrightarrow> fold remove1 cs (cs @ ys) = ys"
  by (induction cs) auto

lemma fold_remove_last_all: "distinct cs \<Longrightarrow> fold remove_last cs cs = []"
proof -
  have g: "distinct (cs @ ys) \<Longrightarrow> fold remove_last cs (cs @ ys) = ys" for ys
  proof (induction cs)
    case Nil
    show ?case by simp
  next
    case (Cons c cs)
    have "remove_last c (c # cs @ ys) = cs @ ys"
      using Cons.prems by (subst remove_last_distinct) auto
    with Cons show ?case by simp
  qed
  assume "distinct cs"
  with g [of "[]"] show ?thesis by simp
qed

lemma count_list_remove1: "count_list (remove1 x xs) y = (if x = y \<and> x \<in> set xs then count_list xs y - 1 else count_list xs y)"
  by (induction xs) auto

lemma count_list_removeAll:
  "count_list (removeAll x xs) y = (if x = y then 0 else count_list xs y)"
  by (induction xs) auto

lemma removeAll_remove1: "removeAll x (remove1 x xs) = removeAll x xs"
  by (induction xs) auto

lemma funpow_remove1: "count_list xs r = n \<Longrightarrow> (remove1 r ^^ n) xs = removeAll r xs"
proof (induction n arbitrary: xs)
  case 0
  then have "r \<notin> set xs" by (simp add: count_list_0_iff)
  then show ?case by simp
next
  case (Suc n)
  then have m: "r \<in> set xs" using count_list_0_iff [of xs r] by auto
  have "count_list (remove1 r xs) r = n" using Suc.prems m by (simp add: count_list_remove1)
  from Suc.IH [OF this] show ?case
    by (simp add: funpow_swap1 removeAll_remove1)
qed

lemma fold_connectionEnded_responses:
  "\<forall>c \<in> set cs. \<exists>k. c = ConnectionEnded k r \<Longrightarrow>
     priv_responses (fold connectionEnded cs w) = (remove1 r ^^ length cs) (priv_responses w)"
proof (induction cs arbitrary: w)
  case Nil
  show ?case by simp
next
  case (Cons c cs)
  then obtain k where c: "c = ConnectionEnded k r" by auto
  from Cons have "priv_responses (fold connectionEnded cs (connectionEnded c w)) =
      (remove1 r ^^ length cs) (priv_responses (connectionEnded c w))" by simp
  then show ?case by (simp add: c connectionEnded_responses funpow_swap1)
qed

lemma fold_connectionEnded_listeners:
  "\<forall>c \<in> set cs. \<exists>k. c = ConnectionEnded k r \<Longrightarrow>
     listeners (heap (fold connectionEnded cs w) h) ev =
       (if h = r then fold remove_last cs (listeners (heap w r) ev) else listeners (heap w h) ev)"
proof (induction cs arbitrary: w)
  case Nil
  show ?case by simp
next
  case (Cons c cs)
  then obtain k where c: "c = ConnectionEnded k r" by auto
  from Cons have "listeners (heap (fold connectionEnded cs (connectionEnded c w)) h) ev =
       (if h = r then fold remove_last cs (listeners (heap (connectionEnded c w) r) ev)
        else listeners (heap (connectionEnded c w) h) ev)" by simp
  then show ?case by (simp add: c connectionEnded_listeners)
qed

lemma fold_connectionEnded_frame:
  "priv_lastMessage (fold connectionEnded cs w) = priv_lastMessage w"
  "console (fold connectionEnded cs w) = console w"
  "closures (fold connectionEnded cs w) = closures w"
  "headersSent (heap (fold connectionEnded cs w) h) = headersSent (heap w h)"
  "sent (heap (fold connectionEnded cs w) h) = sent (heap w h)"
  by (induction cs arbitrary: w; simp add: connectionEnded_frame)+

lemma emit_frame:
  "priv_lastMessage (emit r ev w) = priv_lastMessage w"
  "console (emit r ev w) = console w"
  "closures (emit r ev w) = closures w"
  "headersSent (heap (emit r ev w) h) = headersSent (heap w h)"
  "sent (heap (emit r ev w) h) = sent (heap w h)"
  by (simp_all add: emit_def fold_connectionEnded_frame)

lemma consistent_listeners:
  assumes "consistent w"
  shows "listeners (heap w r) ev = listeners (heap w r) Finish"
    and "distinct (listeners (heap w r) Finish)"
    and "\<forall>c \<in> set (listeners (heap w r) Finish). \<exists>k. c = ConnectionEnded k r"
    and "length (listeners (heap w r) Finish) = count_list (priv_responses w) r"
  using assms by (cases ev; auto simp: consistent_def)+

lemma emit_responses:
  assumes "consistent w"
  shows "priv_responses (emit r ev w) = removeAll r (priv_responses w)"
proof -
  let ?cs = "listeners (heap w r) Finish"
  have e: "listeners (heap w r) ev = ?cs"
    using consistent_listeners(1) [OF assms] .
  have "priv_responses (emit r ev w) = (remove1 r ^^ length ?cs) (priv_responses w)"
    unfolding emit_def e
    by (rule fold_connectionEnded_responses) (rule consistent_listeners(3) [OF assms])
  also have "\<dots> = removeAll r (priv_responses w)"
    by (rule funpow_remove1) (simp add: consistent_listeners(4) [OF assms])
  finally show ?thesis .
qed

lemma emit_listeners:
  assumes "consistent w"
  shows "listeners (heap (emit r ev w) h) ev' = (if h = r then [] else listeners (heap w h) ev')"
proof -
  let ?cs = "listeners (heap w r) Finish"
  have e: "listeners (heap w r) ev = ?cs" "listeners (heap w r) ev' = ?cs"
    using consistent_listeners(1) [OF assms] by simp_all
  have "listeners (heap (emit r ev w) h) ev' =
      (if h = r then fold remove_last ?cs ?cs else listeners (heap w h) ev')"
    using consistent_listeners(3) [OF assms, of r] e
    by (simp add: emit_def fold_connectionEnded_listeners)
  with consistent_listeners(2) [OF assms, of r] show ?thesis
    by (simp add: fold_remove_last_all)
qed

lemma consistent_emit:
  assumes "consistent w"
  shows "consistent (emit r ev w)"
  unfolding consistent_def
proof (intro allI conjI)
  fix h
  let ?w = "emit r ev w"
  show "listeners (heap ?w h) Close = listeners (heap ?w h) Finish"
    using consistent_listeners(1) [OF assms, of h Close]
    by (simp add: emit_listeners [OF assms])
  show "distinct (listeners (heap ?w h) Finish)"
    using consistent_listeners(2) [OF assms, of h]
    by (simp add: emit_listeners [OF assms])
  show "\<forall>c \<in> set (listeners (heap ?w h) Finish). \<exists>k < closures ?w. c = ConnectionEnded k h"
    using assms by (simp add: emit_listeners [OF assms] emit_frame consistent_def)
  show "length (listeners (heap ?w h) Finish) = count_list (priv_responses ?w) h"
    using consistent_listeners(4) [OF assms, of h]
    by (simp add: emit_listeners [OF assms] emit_responses [OF assms] count_list_removeAll)
qed

subsection \<open>The methods on the invariant\<close>

lemma broadcast_eq:
  "broadcast m now w =
     Returned (fanout (priv_responses w) (w\<lparr>priv_lastMessage := Some \<lparr>message = m, time = now\<rparr>\<rparr>))"
  by (simp add: broadcast_def for_of_fanout)

lemma fanout_heap_other: "h \<notin> set rs \<Longrightarrow> heap (fanout rs w) h = heap w h"
  by (induction rs arbitrary: w) (auto simp: deliver_eq)

lemma json_frame:
  "priv_responses (world_of (json r b w)) = priv_responses w"
  "priv_lastMessage (world_of (json r b w)) = priv_lastMessage w"
  "console (world_of (json r b w)) = console w"
  "closures (world_of (json r b w)) = closures w"
  "listeners (heap (world_of (json r b w)) h) = listeners (heap w h)"
  by (simp_all add: json_def)

lemma add_behind_eq:
  "neq_js (queryMessageTime rq) (Finite (of_int (lastMessageTime w))) \<Longrightarrow>
     add rq r w = json r (priv_lastMessage w) w"
  by (simp add: add_def)

lemma add_park_eq:
  assumes "\<not> neq_js (queryMessageTime rq) (Finite (of_int (lastMessageTime w)))"
  shows "\<exists>w'. add rq r w = Returned w' \<and>
           priv_responses w' = priv_responses w @ [r] \<and>
           priv_lastMessage w' = priv_lastMessage w \<and>
           console w' = console w \<and>
           closures w' = Suc (closures w) \<and>
           (\<forall>h. headersSent (heap w' h) = headersSent (heap w h) \<and>
                sent (heap w' h) = sent (heap w h)) \<and>
           (\<forall>h ev. listeners (heap w' h) ev =
                (if h = r then listeners (heap w r) ev @ [ConnectionEnded (closures w) r]
                 else listeners (heap w h) ev))"
proof -
  have e: "ev \<noteq> Finish \<longrightarrow> ev = Close" for ev by (cases ev) simp_all
  show ?thesis using assms e by (simp add: add_def Let_def on_def)
qed

lemma consistent_start: "consistent start"
  by (simp add: consistent_def start_def constructor_def fresh_response_def)

lemma consistent_json: "consistent w \<Longrightarrow> consistent (world_of (json r b w))"
  by (simp add: consistent_def json_frame)

lemma consistent_add: 
  assumes "consistent w"
  shows "consistent (world_of (add rq r w))"
proof (cases "neq_js (queryMessageTime rq) (Finite (of_int (lastMessageTime w)))")
  case True
  then show ?thesis using assms by (simp add: add_behind_eq consistent_json)
next
  case False
  from add_park_eq [OF False, of r] obtain w' where
    a: "add rq r w = Returned w'" and
    p: "priv_responses w' = priv_responses w @ [r]" and
    c: "closures w' = Suc (closures w)" and
    l: "\<And>h ev. listeners (heap w' h) ev =
                (if h = r then listeners (heap w r) ev @ [ConnectionEnded (closures w) r]
                 else listeners (heap w h) ev)"
    by blast
  have "consistent w'"
    unfolding consistent_def
  proof (intro allI conjI)
    fix h
    show "listeners (heap w' h) Close = listeners (heap w' h) Finish"
      using consistent_listeners(1) [OF assms, of h Close] by (auto simp: l)
    have b: "\<forall>c \<in> set (listeners (heap w h) Finish). \<exists>k < closures w. c = ConnectionEnded k h"
      using assms by (simp add: consistent_def)
    then have "ConnectionEnded (closures w) h \<notin> set (listeners (heap w h) Finish)"
      by auto
    then show "distinct (listeners (heap w' h) Finish)"
      using consistent_listeners(2) [OF assms, of h] by (auto simp: l)
    show "\<forall>c \<in> set (listeners (heap w' h) Finish). \<exists>k < closures w'. c = ConnectionEnded k h"
      using b by (auto simp: l c less_Suc_eq)
    show "length (listeners (heap w' h) Finish) = count_list (priv_responses w') h"
      using consistent_listeners(4) [OF assms, of h] by (auto simp: l p)
  qed
  then show ?thesis by (simp add: a)
qed

lemma consistent_broadcast: "consistent w \<Longrightarrow> consistent (world_of (broadcast m now w))"
  by (simp add: consistent_def broadcast_eq fanout_frame)

lemma consistent_respond: "consistent w \<Longrightarrow> consistent (respond_elsewhere r w)"
  by (simp add: consistent_def respond_elsewhere_def)

lemma consistent_step: "consistent w \<Longrightarrow> consistent (step op w)"
  by (cases op) (simp_all add: consistent_add consistent_broadcast consistent_emit consistent_respond)

lemma consistent_run: "consistent w \<Longrightarrow> consistent (run ops w)"
  unfolding run_def by (induction ops arbitrary: w) (simp_all add: consistent_step)

subsection \<open>The timestamp of a request\<close>

lemma queryMessageTime_not_NaN: "queryMessageTime rq \<noteq> NaN"
  by (simp add: queryMessageTime_def or_js_def truthy_def)

lemma neq_js_query:
  "neq_js (queryMessageTime rq) (Finite t) = (queryMessageTime rq \<noteq> Finite t)"
  by (simp add: neq_js_def queryMessageTime_not_NaN)

subsection \<open>The array along a run\<close>

lemma add_responses:
  "priv_responses (world_of (add rq r w)) = priv_responses w \<or>
   priv_responses (world_of (add rq r w)) = priv_responses w @ [r]"
proof (cases "neq_js (queryMessageTime rq) (Finite (of_int (lastMessageTime w)))")
  case True
  then show ?thesis by (simp add: add_behind_eq json_frame)
next
  case False
  from add_park_eq [OF False, of r] show ?thesis by auto
qed

lemma distinct_step:
  assumes "consistent w" and "distinct (priv_responses w)" and "no_repark [op] w"
  shows "distinct (priv_responses (step op w))"
proof (cases op)
  case (Broadcast m now)
  then show ?thesis using assms(2) by (simp add: broadcast_eq fanout_frame)
next
  case (Add rq r)
  with assms(3) have "r \<notin> set (priv_responses w)" by simp
  with assms(2) add_responses [of rq r w] show ?thesis using Add by auto
next
  case (Emit r ev)
  then show ?thesis using assms(2) by (simp add: emit_responses [OF assms(1)] distinct_removeAll)
next
  case (Respond r)
  then show ?thesis using assms(2) by (simp add: respond_elsewhere_def)
qed

lemma no_repark_Cons: "no_repark (op # ops) w = (no_repark [op] w \<and> no_repark ops (step op w))"
  by (cases op) simp_all

lemma distinct_run:
  "consistent w \<Longrightarrow> distinct (priv_responses w) \<Longrightarrow> no_repark ops w \<Longrightarrow>
     distinct (priv_responses (run ops w))"
proof (induction ops arbitrary: w)
  case Nil
  then show ?case by (simp add: run_def)
next
  case (Cons op ops)
  from Cons.prems(3) have a: "no_repark [op] w" and b: "no_repark ops (step op w)"
    using no_repark_Cons [of op ops w] by simp_all
  have "distinct (priv_responses (run ops (step op w)))"
    using Cons.IH [OF consistent_step [OF Cons.prems(1)] distinct_step [OF Cons.prems(1,2) a] b] .
  then show ?case by (simp add: run_def)
qed

subsection \<open>The timestamp along a run\<close>

lemma stored_times_eq: "stored_times ops w = clock_readings ops"
proof (induction ops arbitrary: w)
  case Nil
  show ?case by simp
next
  case (Cons op ops)
  show ?case
    by (cases op) (simp_all add: Cons.IH broadcast_eq lastMessageTime_def fanout_frame)
qed

lemma step_lastMessageTime:
  "lastMessageTime (step op w) = (case op of Broadcast m now \<Rightarrow> now | _ \<Rightarrow> lastMessageTime w)"
proof (cases op)
  case (Add rq r)
  from add_park_eq [of rq w r] show ?thesis
    by (cases "neq_js (queryMessageTime rq) (Finite (of_int (lastMessageTime w)))")
       (auto simp: Add lastMessageTime_def add_behind_eq json_frame)
qed (simp_all add: lastMessageTime_def broadcast_eq fanout_frame emit_frame respond_elsewhere_def)

lemma run_lastMessageTime:
  "lastMessageTime (run ops w) =
     (if clock_readings ops = [] then lastMessageTime w else last (clock_readings ops))"
proof (induction ops arbitrary: w)
  case Nil
  show ?case by (simp add: run_def)
next
  case (Cons op ops)
  have "lastMessageTime (run (op # ops) w) = lastMessageTime (run ops (step op w))"
    by (simp add: run_def)
  also have "\<dots> = (if clock_readings ops = [] then lastMessageTime (step op w)
                     else last (clock_readings ops))"
    by (rule Cons.IH)
  finally show ?case
    by (cases op) (simp_all add: step_lastMessageTime del: step.simps)
qed

subsection \<open>What serialises\<close>

lemma stringifies_Some:
  "stringifies (Some \<lparr>message = m, time = t\<rparr>) = (\<exists>x. m = Serialisable x)"
  by (cases m) (simp_all add: stringifies_def)

lemma stringifies_iff:
  "stringifies body = (\<forall>m. body = Some m \<longrightarrow> (\<exists>x. message m = Serialisable x))"
proof (cases body)
  case None
  then show ?thesis by (simp add: stringifies_def)
next
  case (Some m)
  then show ?thesis by (cases "message m") (simp_all add: stringifies_def)
qed

subsection \<open>The two timestamps that \<^verbatim>\<open>add\<close> compares\<close>

lemma queryMessageTime_eq:
  "queryMessageTime rq =
     (if Number_lastMessageTime rq = NaN then Finite 0 else Number_lastMessageTime rq)"
  by (simp add: queryMessageTime_def or_js_def truthy_def)

lemma add_decision:
  assumes "seen = (if Number_lastMessageTime rq = NaN then Finite 0 else Number_lastMessageTime rq)"
    and "current = (case priv_lastMessage w of None \<Rightarrow> 0 | Some m \<Rightarrow> time m)"
  shows "neq_js (queryMessageTime rq) (Finite (of_int (lastMessageTime w)))
           = (seen \<noteq> Finite (of_int current))"
  using assms by (auto simp: neq_js_def queryMessageTime_eq lastMessageTime_def)

subsection \<open>What one step delivers to a response\<close>

lemma json_sent:
  "sent (heap (world_of (json r b w)) h) =
     sent (heap w h) @ (if h = r \<and> stringifies b \<and> \<not> headersSent (heap w r) then [b] else [])"
  by (simp add: json_def)

lemma step_sent:
  "sent (heap (step op v) r) = sent (heap v r) \<or>
   (\<exists>m now. op = Broadcast m now \<and> r \<in> set (priv_responses v) \<and>
      sent (heap (step op v) r) = sent (heap v r) @ [Some \<lparr>message = m, time = now\<rparr>]) \<or>
   (\<exists>rq. op = Add rq r \<and>
      (if Number_lastMessageTime rq = NaN then Finite 0 else Number_lastMessageTime rq)
        \<noteq> Finite (of_int (case priv_lastMessage v of None \<Rightarrow> 0 | Some m \<Rightarrow> time m)) \<and>
      sent (heap (step op v) r) = sent (heap v r) @ [priv_lastMessage v])"
proof (cases op)
  case (Broadcast m now)
  then show ?thesis by (simp add: broadcast_eq fanout_sent)
next
  case (Add rq h)
  show ?thesis
  proof (cases "neq_js (queryMessageTime rq) (Finite (of_int (lastMessageTime v)))")
    case True
    then have d: "(if Number_lastMessageTime rq = NaN then Finite 0 else Number_lastMessageTime rq)
        \<noteq> Finite (of_int (case priv_lastMessage v of None \<Rightarrow> 0 | Some m \<Rightarrow> time m))"
      using add_decision [OF refl refl, of rq v] by simp
    have "step op v = world_of (json h (priv_lastMessage v) v)"
      using True Add by (simp add: add_behind_eq)
    then have "sent (heap (step op v) r) =
        sent (heap v r) @
        (if r = h \<and> stringifies (priv_lastMessage v) \<and> \<not> headersSent (heap v h)
         then [priv_lastMessage v] else [])"
      by (simp add: json_sent)
    with d Add show ?thesis by (cases "r = h") auto
  next
    case False
    from add_park_eq [OF False, of h] Add show ?thesis by auto
  qed
next
  case (Emit h ev)
  then show ?thesis by (simp add: emit_frame)
next
  case (Respond h)
  then show ?thesis by (simp add: respond_elsewhere_def)
qed

subsection \<open>Evaluating concrete runs\<close>

lemmas run_simps = run_def start_def constructor_def fresh_response_def add_def queryMessageTime_def
  or_js_def truthy_def neq_js_def lastMessageTime_def on_def broadcast_eq deliver_eq emit_def
  respond_elsewhere_def stringifies_def json_def Let_def

lemmas event_simps = run_simps connectionEnded.simps removeListener_def remove_last_def
  splice_js_def

section \<open>The properties\<close>

subsection \<open>C1: what a broadcast delivers, and to whom\<close>




subsection \<open>C2: a request that is behind is answered at once\<close>

text \<open>
  C2, as amended. Let \<open>seen\<close> be the timestamp of the request, 0 when the parameter is
  missing or malformed, and \<open>current\<close> the time of the latest message, 0 when there is
  none. When they differ, \<^verbatim>\<open>add\<close> is the call \<^verbatim>\<open>res.json(this._lastMessage)\<close> and nothing
  more, and the response is not put into the array. When the response is not yet
  completed and the latest message serialises (\<^verbatim>\<open>null\<close> does), the call returns and the
  latest message, or \<^verbatim>\<open>null\<close> when there is none, has been written to the response within
  the call. Otherwise the exception of \<^verbatim>\<open>res.json\<close> leaves \<^verbatim>\<open>add\<close> and nothing has changed.
\<close>

theorem add_caught_up:
  assumes "seen = (if Number_lastMessageTime rq = NaN then Finite 0 else Number_lastMessageTime rq)"
    and "current = (case priv_lastMessage w of None \<Rightarrow> 0 | Some m \<Rightarrow> time m)"
    and "seen \<noteq> Finite (of_int current)"
  shows "add rq r w = json r (priv_lastMessage w) w \<and>
         priv_responses (world_of (add rq r w)) = priv_responses w \<and>
         (if \<not> headersSent (heap w r) \<and>
             (\<forall>m. priv_lastMessage w = Some m \<longrightarrow> (\<exists>x. message m = Serialisable x))
          then returned (add rq r w) \<and>
               sent (heap (world_of (add rq r w)) r) = sent (heap w r) @ [priv_lastMessage w]
          else \<not> returned (add rq r w) \<and> world_of (add rq r w) = w)"
proof -
  have "neq_js (queryMessageTime rq) (Finite (of_int (lastMessageTime w)))"
    using add_decision [OF assms(1,2)] assms(3) by simp
  then have a: "add rq r w = json r (priv_lastMessage w) w"
    by (rule add_behind_eq)
  have s: "stringifies (priv_lastMessage w) =
      (\<forall>m. priv_lastMessage w = Some m \<longrightarrow> (\<exists>x. message m = Serialisable x))"
    by (rule stringifies_iff)
  show ?thesis unfolding a s [symmetric] by (simp add: json_def)
qed

text \<open>
  C2 at two concrete states. After \<open>''A''\<close> was broadcast at time 100, a request with
  timestamp 0 on response 8 receives \<open>''A''\<close>. Before any broadcast, a request with
  timestamp 5 on response 8 receives \<^verbatim>\<open>null\<close>.
\<close>

theorem add_caught_up_witness:
  "(if Number_lastMessageTime \<lparr>Number_lastMessageTime = Finite 0\<rparr> = NaN then Finite 0
    else Number_lastMessageTime \<lparr>Number_lastMessageTime = Finite 0\<rparr>)
     \<noteq> Finite (of_int (case priv_lastMessage (run [Broadcast (Serialisable ''A'') 100] start)
                          of None \<Rightarrow> 0 | Some m \<Rightarrow> time m)) \<and>
   returned (add \<lparr>Number_lastMessageTime = Finite 0\<rparr> 8
      (run [Broadcast (Serialisable ''A'') 100] start)) \<and>
   priv_responses (world_of (add \<lparr>Number_lastMessageTime = Finite 0\<rparr> 8
      (run [Broadcast (Serialisable ''A'') 100] start))) = [] \<and>
   sent (heap (world_of (add \<lparr>Number_lastMessageTime = Finite 0\<rparr> 8
      (run [Broadcast (Serialisable ''A'') 100] start))) 8)
     = [Some \<lparr>message = Serialisable ''A'', time = 100\<rparr>] \<and>
   returned (add \<lparr>Number_lastMessageTime = Finite 5\<rparr> 8 (start :: string world)) \<and>
   priv_responses (world_of (add \<lparr>Number_lastMessageTime = Finite 5\<rparr> 8
      (start :: string world))) = [] \<and>
   sent (heap (world_of (add \<lparr>Number_lastMessageTime = Finite 5\<rparr> 8
      (start :: string world))) 8) = [None]"
proof -
  let ?w = "run [Broadcast (Serialisable ''A'') 100] start :: string world"
  let ?rq = "\<lparr>Number_lastMessageTime = Finite 0\<rparr>"
  let ?fresh = "start :: string world"
  let ?rqb = "\<lparr>Number_lastMessageTime = Finite 5\<rparr>"
  have h: "(if Number_lastMessageTime ?rq = NaN then Finite 0 else Number_lastMessageTime ?rq)
      \<noteq> Finite (of_int (case priv_lastMessage ?w of None \<Rightarrow> 0 | Some m \<Rightarrow> time m))"
    by (simp add: run_simps fanout_frame)
  have p: "\<not> headersSent (heap ?w 8)" "priv_responses ?w = []" "sent (heap ?w 8) = []"
    "priv_lastMessage ?w = Some \<lparr>message = Serialisable ''A'', time = 100\<rparr>"
    by (simp_all add: run_simps)
  note t = add_caught_up [OF refl refl h, of 8]
  from t p have a: "returned (add ?rq 8 ?w)"
    "priv_responses (world_of (add ?rq 8 ?w)) = []"
    "sent (heap (world_of (add ?rq 8 ?w)) 8) = [Some \<lparr>message = Serialisable ''A'', time = 100\<rparr>]"
    by auto
  have g: "(if Number_lastMessageTime ?rqb = NaN then Finite 0 else Number_lastMessageTime ?rqb)
      \<noteq> Finite (of_int (case priv_lastMessage ?fresh of None \<Rightarrow> 0 | Some m \<Rightarrow> time m))"
    by (simp add: run_simps)
  have q: "\<not> headersSent (heap ?fresh 8)" "priv_responses ?fresh = []" "sent (heap ?fresh 8) = []"
    "priv_lastMessage ?fresh = None"
    by (simp_all add: run_simps)
  note u = add_caught_up [OF refl refl g, of 8]
  from u q have b: "returned (add ?rqb 8 ?fresh)"
    "priv_responses (world_of (add ?rqb 8 ?fresh)) = []"
    "sent (heap (world_of (add ?rqb 8 ?fresh)) 8) = [None]"
    by auto
  from h a b show ?thesis by blast
qed

text \<open>
  C2 as stated fails. Response 8 was completed elsewhere and \<open>''A''\<close> was broadcast at
  time 100: a request with timestamp 0 on response 8 is behind, yet \<^verbatim>\<open>add\<close> throws and 8
  has received nothing. And after a payload that does not serialise was broadcast at
  time 100, a request with timestamp 0 on the open response 8 is behind, yet \<^verbatim>\<open>add\<close>
  throws and 8 has received nothing.
\<close>

theorem add_caught_up_counterexample:
  "queryMessageTime \<lparr>Number_lastMessageTime = Finite 0\<rparr> = Finite 0 \<and>
   lastMessageTime (run [Respond 8, Broadcast (Serialisable ''A'') 100] start) = 100 \<and>
   \<not> returned (add \<lparr>Number_lastMessageTime = Finite 0\<rparr> 8
      (run [Respond 8, Broadcast (Serialisable ''A'') 100] start)) \<and>
   sent (heap (world_of (add \<lparr>Number_lastMessageTime = Finite 0\<rparr> 8
      (run [Respond 8, Broadcast (Serialisable ''A'') 100] start))) 8) = [] \<and>
   lastMessageTime (run [Broadcast (Unserialisable ''C'') 100] start) = 100 \<and>
   \<not> headersSent (heap (run [Broadcast (Unserialisable ''C'') 100] start) 8) \<and>
   \<not> returned (add \<lparr>Number_lastMessageTime = Finite 0\<rparr> 8
      (run [Broadcast (Unserialisable ''C'') 100] start)) \<and>
   sent (heap (world_of (add \<lparr>Number_lastMessageTime = Finite 0\<rparr> 8
      (run [Broadcast (Unserialisable ''C'') 100] start))) 8) = []"
  by (simp add: run_simps)

subsection \<open>C3: a request that is up to date is parked\<close>

text \<open>
  C3, as amended. With \<open>seen\<close> and \<open>current\<close> as in C2: when they are equal, and in
  particular when there is no message yet and the request says 0, \<^verbatim>\<open>add\<close> returns
  normally, the response is appended to the array, and the call delivers nothing to any
  response and logs nothing. The next broadcast delivers its message to the parked
  response when the response is not yet completed and the payload serialises. A response
  receives something only in two kinds of step: a broadcast that finds it in the array,
  and a call of \<^verbatim>\<open>add\<close> on this same response with a request that is behind, which
  delivers the latest message or \<^verbatim>\<open>null\<close>. The firing of \<^verbatim>\<open>finish\<close> or \<^verbatim>\<open>close\<close> delivers
  nothing.
\<close>

theorem add_parks:
  fixes w :: "'m world"
  assumes "seen = (if Number_lastMessageTime rq = NaN then Finite 0 else Number_lastMessageTime rq)"
    and "current = (case priv_lastMessage w of None \<Rightarrow> 0 | Some m \<Rightarrow> time m)"
    and "seen = Finite (of_int current)"
  shows "\<exists>w'. add rq r w = Returned w' \<and>
           priv_responses w' = priv_responses w @ [r] \<and>
           (\<forall>h. sent (heap w' h) = sent (heap w h) \<and>
                headersSent (heap w' h) = headersSent (heap w h)) \<and>
           console w' = console w \<and>
           (\<forall>m now. sent (heap (world_of (broadcast m now w')) r) =
                sent (heap w r) @
                (if \<not> headersSent (heap w r) \<and> (\<exists>x. m = Serialisable x)
                 then [Some \<lparr>message = m, time = now\<rparr>] else [])) \<and>
           (\<forall>op (v :: 'm world).
              sent (heap (step op v) r) = sent (heap v r) \<or>
              (\<exists>m now. op = Broadcast m now \<and> r \<in> set (priv_responses v) \<and>
                 sent (heap (step op v) r) = sent (heap v r) @ [Some \<lparr>message = m, time = now\<rparr>]) \<or>
              (\<exists>rq'. op = Add rq' r \<and>
                 (if Number_lastMessageTime rq' = NaN then Finite 0 else Number_lastMessageTime rq')
                   \<noteq> Finite (of_int (case priv_lastMessage v of None \<Rightarrow> 0 | Some m \<Rightarrow> time m)) \<and>
                 sent (heap (step op v) r) = sent (heap v r) @ [priv_lastMessage v]))"
proof -
  have "\<not> neq_js (queryMessageTime rq) (Finite (of_int (lastMessageTime w)))"
    using add_decision [OF assms(1,2)] assms(3) by simp
  from add_park_eq [OF this, of r] obtain w' where
    a: "add rq r w = Returned w'" and
    p: "priv_responses w' = priv_responses w @ [r]" and
    c: "console w' = console w" and
    h: "\<forall>h. headersSent (heap w' h) = headersSent (heap w h) \<and> sent (heap w' h) = sent (heap w h)"
    by blast
  have b: "sent (heap (world_of (broadcast m now w')) r) =
          sent (heap w r) @
          (if \<not> headersSent (heap w r) \<and> (\<exists>x. m = Serialisable x)
           then [Some \<lparr>message = m, time = now\<rparr>] else [])"
    for m now
    using p h by (simp add: broadcast_eq fanout_sent stringifies_Some)
  have s: "sent (heap (step op v) r) = sent (heap v r) \<or>
      (\<exists>m now. op = Broadcast m now \<and> r \<in> set (priv_responses v) \<and>
         sent (heap (step op v) r) = sent (heap v r) @ [Some \<lparr>message = m, time = now\<rparr>]) \<or>
      (\<exists>rq'. op = Add rq' r \<and>
         (if Number_lastMessageTime rq' = NaN then Finite 0 else Number_lastMessageTime rq')
           \<noteq> Finite (of_int (case priv_lastMessage v of None \<Rightarrow> 0 | Some m \<Rightarrow> time m)) \<and>
         sent (heap (step op v) r) = sent (heap v r) @ [priv_lastMessage v])"
    for op and v :: "'m world"
    by (rule step_sent)
  from a p c h b s show ?thesis by blast
qed

text \<open>
  C3 at two concrete states. Before any broadcast, a request with timestamp 0 parks
  response 7, and the first broadcast reaches it. After \<open>''A''\<close> was broadcast at time
  100, a request with timestamp 100 parks response 9, and the broadcast of \<open>''B''\<close> at
  time 150 reaches it.
\<close>

theorem add_parks_witness:
  "(if Number_lastMessageTime \<lparr>Number_lastMessageTime = Finite 0\<rparr> = NaN then Finite 0
    else Number_lastMessageTime \<lparr>Number_lastMessageTime = Finite 0\<rparr>)
     = Finite (of_int (case priv_lastMessage (start :: string world)
                         of None \<Rightarrow> 0 | Some m \<Rightarrow> time m)) \<and>
   (\<exists>w'. add \<lparr>Number_lastMessageTime = Finite 0\<rparr> 7 (start :: string world) = Returned w' \<and>
      priv_responses w' = [7] \<and> sent (heap w' 7) = [] \<and> \<not> headersSent (heap w' 7) \<and>
      sent (heap (world_of (broadcast (Serialisable ''A'') 100 w')) 7)
        = [Some \<lparr>message = Serialisable ''A'', time = 100\<rparr>]) \<and>
   (if Number_lastMessageTime \<lparr>Number_lastMessageTime = Finite 100\<rparr> = NaN then Finite 0
    else Number_lastMessageTime \<lparr>Number_lastMessageTime = Finite 100\<rparr>)
     = Finite (of_int (case priv_lastMessage (run [Broadcast (Serialisable ''A'') 100] start)
                         of None \<Rightarrow> 0 | Some m \<Rightarrow> time m)) \<and>
   (\<exists>w'. add \<lparr>Number_lastMessageTime = Finite 100\<rparr> 9
            (run [Broadcast (Serialisable ''A'') 100] start) = Returned w' \<and>
      priv_responses w' = [9] \<and> sent (heap w' 9) = [] \<and> \<not> headersSent (heap w' 9) \<and>
      sent (heap (world_of (broadcast (Serialisable ''B'') 150 w')) 9)
        = [Some \<lparr>message = Serialisable ''B'', time = 150\<rparr>])"
proof -
  let ?fresh = "start :: string world"
  let ?rq = "\<lparr>Number_lastMessageTime = Finite 0\<rparr>"
  let ?w = "run [Broadcast (Serialisable ''A'') 100] start :: string world"
  let ?rqb = "\<lparr>Number_lastMessageTime = Finite 100\<rparr>"
  have h: "(if Number_lastMessageTime ?rq = NaN then Finite 0 else Number_lastMessageTime ?rq)
      = Finite (of_int (case priv_lastMessage ?fresh of None \<Rightarrow> 0 | Some m \<Rightarrow> time m))"
    by (simp add: run_simps)
  have p: "priv_responses ?fresh = []" "sent (heap ?fresh 7) = []" "\<not> headersSent (heap ?fresh 7)"
    by (simp_all add: run_simps)
  from add_parks [OF refl refl h, of 7] obtain w' where
    "add ?rq 7 ?fresh = Returned w'"
    "priv_responses w' = priv_responses ?fresh @ [7]"
    "\<forall>h. sent (heap w' h) = sent (heap ?fresh h) \<and> headersSent (heap w' h) = headersSent (heap ?fresh h)"
    "\<forall>m now. sent (heap (world_of (broadcast m now w')) 7) =
                sent (heap ?fresh 7) @
                (if \<not> headersSent (heap ?fresh 7) \<and> (\<exists>x. m = Serialisable x)
                 then [Some \<lparr>message = m, time = now\<rparr>] else [])"
    by blast
  with p have a: "\<exists>w'. add ?rq 7 ?fresh = Returned w' \<and>
      priv_responses w' = [7] \<and> sent (heap w' 7) = [] \<and> \<not> headersSent (heap w' 7) \<and>
      sent (heap (world_of (broadcast (Serialisable ''A'') 100 w')) 7)
        = [Some \<lparr>message = Serialisable ''A'', time = 100\<rparr>]"
    by simp
  have g: "(if Number_lastMessageTime ?rqb = NaN then Finite 0 else Number_lastMessageTime ?rqb)
      = Finite (of_int (case priv_lastMessage ?w of None \<Rightarrow> 0 | Some m \<Rightarrow> time m))"
    by (simp add: run_simps fanout_frame)
  have q: "priv_responses ?w = []" "sent (heap ?w 9) = []" "\<not> headersSent (heap ?w 9)"
    by (simp_all add: run_simps)
  from add_parks [OF refl refl g, of 9] obtain v' where
    "add ?rqb 9 ?w = Returned v'"
    "priv_responses v' = priv_responses ?w @ [9]"
    "\<forall>h. sent (heap v' h) = sent (heap ?w h) \<and> headersSent (heap v' h) = headersSent (heap ?w h)"
    "\<forall>m now. sent (heap (world_of (broadcast m now v')) 9) =
                sent (heap ?w 9) @
                (if \<not> headersSent (heap ?w 9) \<and> (\<exists>x. m = Serialisable x)
                 then [Some \<lparr>message = m, time = now\<rparr>] else [])"
    by blast
  with q have b: "\<exists>w'. add ?rqb 9 ?w = Returned w' \<and>
      priv_responses w' = [9] \<and> sent (heap w' 9) = [] \<and> \<not> headersSent (heap w' 9) \<and>
      sent (heap (world_of (broadcast (Serialisable ''B'') 150 w')) 9)
        = [Some \<lparr>message = Serialisable ''B'', time = 150\<rparr>]"
    by simp
  from h a g b show ?thesis by blast
qed

text \<open>
  C3 as stated fails in its last part. Response 7 is parked by a request with timestamp
  0. A second request on the same response, with timestamp 5, is behind: \<^verbatim>\<open>add\<close> answers
  it at once, so the parked response 7 has received \<^verbatim>\<open>null\<close> although nothing was
  broadcast and no event has fired; and 7 is still in the array.
\<close>

theorem add_parks_counterexample:
  "priv_responses (run [Add \<lparr>Number_lastMessageTime = Finite 0\<rparr> 7] (start :: string world)) = [7] \<and>
   sent (heap (run [Add \<lparr>Number_lastMessageTime = Finite 0\<rparr> 7] (start :: string world)) 7) = [] \<and>
   sent (heap (run [Add \<lparr>Number_lastMessageTime = Finite 0\<rparr> 7,
                    Add \<lparr>Number_lastMessageTime = Finite 5\<rparr> 7] (start :: string world)) 7)
     = [None] \<and>
   priv_responses (run [Add \<lparr>Number_lastMessageTime = Finite 0\<rparr> 7,
                        Add \<lparr>Number_lastMessageTime = Finite 5\<rparr> 7] (start :: string world)) = [7]"
  by (simp add: run_simps)

subsection \<open>C4: a failed delivery stops nothing\<close>

text \<open>
  C4. \<^verbatim>\<open>broadcast\<close> always returns normally. Every entry of the array whose
  \<^verbatim>\<open>res.json\<close> throws, because the payload does not serialise or because the response is
  already completed, is caught inside the loop and logged on the console: the console
  grows by exactly the errors of the failing entries, in order. Every entry is either
  served or logged. Every entry whose response was still open receives the message when
  the payload serialises, wherever in the array the failing entries are.
\<close>

theorem broadcast_isolates_failures:
  "\<exists>w'. broadcast m now w = Returned w' \<and>
        console w' = console w @
          failures (priv_responses w) (\<lambda>r. headersSent (heap w r)) (\<exists>x. m = Serialisable x) \<and>
        length (failures (priv_responses w) (\<lambda>r. headersSent (heap w r)) (\<exists>x. m = Serialisable x)) +
          card {r \<in> set (priv_responses w). (\<exists>x. m = Serialisable x) \<and> \<not> headersSent (heap w r)}
          = length (priv_responses w) \<and>
        (\<forall>r \<in> set (priv_responses w).
           if (\<exists>x. m = Serialisable x) \<and> \<not> headersSent (heap w r)
           then sent (heap w' r) = sent (heap w r) @ [Some \<lparr>message = m, time = now\<rparr>]
           else sent (heap w' r) = sent (heap w r) \<and>
                (if \<exists>x. m = Serialisable x then HeadersSent r else TypeError r)
                  \<in> set (failures (priv_responses w) (\<lambda>r. headersSent (heap w r))
                           (\<exists>x. m = Serialisable x)))"
proof -
  let ?ok = "\<exists>x. m = Serialisable x"
  let ?ended = "\<lambda>r. headersSent (heap w r)"
  let ?later = "w\<lparr>priv_lastMessage := Some \<lparr>message = m, time = now\<rparr>\<rparr>"
  let ?w' = "fanout (priv_responses w) ?later"
  have b: "broadcast m now w = Returned ?w'"
    by (rule broadcast_eq)
  have c: "console ?w' = console w @ failures (priv_responses w) ?ended ?ok"
    using fanout_console [of "priv_responses w" ?later] by (simp add: stringifies_Some)
  have n: "length (failures (priv_responses w) ?ended ?ok) +
        card {r \<in> set (priv_responses w). ?ok \<and> \<not> ?ended r} = length (priv_responses w)"
    by (rule failures_length)
  have s: "sent (heap ?w' r) = sent (heap w r) @
        (if r \<in> set (priv_responses w) \<and> \<not> ?ended r \<and> ?ok
         then [Some \<lparr>message = m, time = now\<rparr>] else [])"
    for r
    using fanout_sent [of "priv_responses w" ?later r] by (simp add: stringifies_Some)
  have f: "(if ?ok then HeadersSent r else TypeError r)
        \<in> set (failures (priv_responses w) ?ended ?ok)"
    if "r \<in> set (priv_responses w)" and "\<not> (?ok \<and> \<not> ?ended r)" for r
  proof (cases ?ok)
    case True
    with that have "?ended r" by simp
    from failures_mem [OF that(1), of ?ended, OF this] True show ?thesis by simp
  next
    case False
    with that(1) show ?thesis by (simp add: failures_not_ok)
  qed
  have "\<forall>r \<in> set (priv_responses w).
           if ?ok \<and> \<not> ?ended r
           then sent (heap ?w' r) = sent (heap w r) @ [Some \<lparr>message = m, time = now\<rparr>]
           else sent (heap ?w' r) = sent (heap w r) \<and>
                (if ?ok then HeadersSent r else TypeError r)
                  \<in> set (failures (priv_responses w) ?ended ?ok)"
  proof
    fix r
    assume r: "r \<in> set (priv_responses w)"
    show "if ?ok \<and> \<not> ?ended r
           then sent (heap ?w' r) = sent (heap w r) @ [Some \<lparr>message = m, time = now\<rparr>]
           else sent (heap ?w' r) = sent (heap w r) \<and>
                (if ?ok then HeadersSent r else TypeError r)
                  \<in> set (failures (priv_responses w) ?ended ?ok)"
    proof (cases "?ok \<and> \<not> ?ended r")
      case True
      with r s [of r] show ?thesis by simp
    next
      case False
      with r s [of r] f [OF r False] show ?thesis by auto
    qed
  qed
  with b c n show ?thesis by blast
qed

text \<open>
  C4 at two concrete states. Responses 7 and 8 are parked in this order and 7 has been
  completed elsewhere: the broadcast logs the failure of 7 and still delivers to 8.
  Responses 7 and 8 are parked and open and the payload does not serialise: the
  broadcast logs both failures and returns.
\<close>

theorem broadcast_isolates_failures_witness:
  "priv_responses (run [Add \<lparr>Number_lastMessageTime = Finite 0\<rparr> 7,
                        Add \<lparr>Number_lastMessageTime = Finite 0\<rparr> 8, Respond 7] (start :: string world)) = [7, 8] \<and>
   headersSent (heap (run [Add \<lparr>Number_lastMessageTime = Finite 0\<rparr> 7,
                        Add \<lparr>Number_lastMessageTime = Finite 0\<rparr> 8, Respond 7] (start :: string world)) 7) \<and>
   \<not> headersSent (heap (run [Add \<lparr>Number_lastMessageTime = Finite 0\<rparr> 7,
                        Add \<lparr>Number_lastMessageTime = Finite 0\<rparr> 8, Respond 7] (start :: string world)) 8) \<and>
   (\<exists>w'. broadcast (Serialisable ''A'') 100 (run [Add \<lparr>Number_lastMessageTime = Finite 0\<rparr> 7,
                        Add \<lparr>Number_lastMessageTime = Finite 0\<rparr> 8, Respond 7] (start :: string world)) = Returned w' \<and>
      console w' = [HeadersSent 7] \<and>
      sent (heap w' 7) = [] \<and>
      sent (heap w' 8) = [Some \<lparr>message = Serialisable ''A'', time = 100\<rparr>]) \<and>
   (\<exists>w'. broadcast (Unserialisable ''C'') 100 (run [Add \<lparr>Number_lastMessageTime = Finite 0\<rparr> 7,
                        Add \<lparr>Number_lastMessageTime = Finite 0\<rparr> 8] (start :: string world)) = Returned w' \<and>
      console w' = [TypeError 7, TypeError 8] \<and>
      sent (heap w' 7) = [] \<and>
      sent (heap w' 8) = [])"
proof -
  let ?w = "run [Add \<lparr>Number_lastMessageTime = Finite 0\<rparr> 7,
                 Add \<lparr>Number_lastMessageTime = Finite 0\<rparr> 8, Respond 7] start :: string world"
  let ?v = "run [Add \<lparr>Number_lastMessageTime = Finite 0\<rparr> 7,
                 Add \<lparr>Number_lastMessageTime = Finite 0\<rparr> 8] start :: string world"
  have p: "priv_responses ?w = [7, 8]" "headersSent (heap ?w 7)" "\<not> headersSent (heap ?w 8)"
    "console ?w = []" "sent (heap ?w 7) = []" "sent (heap ?w 8) = []"
    by (simp_all add: run_simps)
  have q: "priv_responses ?v = [7, 8]" "console ?v = []" "sent (heap ?v 7) = []"
    "sent (heap ?v 8) = []"
    by (simp_all add: run_simps)
  from broadcast_isolates_failures [of "Serialisable ''A''" 100 ?w] obtain w' where
    b: "broadcast (Serialisable ''A'') 100 ?w = Returned w'" and
    c: "console w' = console ?w @ failures (priv_responses ?w) (\<lambda>r. headersSent (heap ?w r))
          (\<exists>x. Serialisable ''A'' = Serialisable x)" and
    s: "\<forall>r \<in> set (priv_responses ?w).
           if (\<exists>x. Serialisable ''A'' = Serialisable x) \<and> \<not> headersSent (heap ?w r)
           then sent (heap w' r) = sent (heap ?w r) @ [Some \<lparr>message = Serialisable ''A'', time = 100\<rparr>]
           else sent (heap w' r) = sent (heap ?w r) \<and>
                (if \<exists>x. Serialisable ''A'' = Serialisable x then HeadersSent r else TypeError r)
                  \<in> set (failures (priv_responses ?w) (\<lambda>r. headersSent (heap ?w r))
                           (\<exists>x. Serialisable ''A'' = Serialisable x))"
    by blast
  from c p have c': "console w' = [HeadersSent 7]" by simp
  from s p have s': "sent (heap w' 7) = []"
    "sent (heap w' 8) = [Some \<lparr>message = Serialisable ''A'', time = 100\<rparr>]"
    by simp_all
  from b c' s' have first: "\<exists>w'. broadcast (Serialisable ''A'') 100 ?w = Returned w' \<and>
      console w' = [HeadersSent 7] \<and> sent (heap w' 7) = [] \<and>
      sent (heap w' 8) = [Some \<lparr>message = Serialisable ''A'', time = 100\<rparr>]"
    by blast
  from broadcast_isolates_failures [of "Unserialisable ''C''" 100 ?v] obtain v' where
    b2: "broadcast (Unserialisable ''C'') 100 ?v = Returned v'" and
    c2: "console v' = console ?v @ failures (priv_responses ?v) (\<lambda>r. headersSent (heap ?v r))
          (\<exists>x. Unserialisable ''C'' = Serialisable x)" and
    s2: "\<forall>r \<in> set (priv_responses ?v).
           if (\<exists>x. Unserialisable ''C'' = Serialisable x) \<and> \<not> headersSent (heap ?v r)
           then sent (heap v' r) = sent (heap ?v r) @ [Some \<lparr>message = Unserialisable ''C'', time = 100\<rparr>]
           else sent (heap v' r) = sent (heap ?v r) \<and>
                (if \<exists>x. Unserialisable ''C'' = Serialisable x then HeadersSent r else TypeError r)
                  \<in> set (failures (priv_responses ?v) (\<lambda>r. headersSent (heap ?v r))
                           (\<exists>x. Unserialisable ''C'' = Serialisable x))"
    by blast
  from c2 q have c2': "console v' = [TypeError 7, TypeError 8]" by simp
  from s2 q have s2': "sent (heap v' 7) = []" "sent (heap v' 8) = []"
    by simp_all
  from b2 c2' s2' have second: "\<exists>w'. broadcast (Unserialisable ''C'') 100 ?v = Returned w' \<and>
      console w' = [TypeError 7, TypeError 8] \<and> sent (heap w' 7) = [] \<and> sent (heap w' 8) = []"
    by blast
  from p(1,2,3) first second show ?thesis by blast
qed

subsection \<open>C5: a missing or malformed timestamp counts as 0\<close>

text \<open>
  C5. When \<^verbatim>\<open>Number(req.query.lastMessageTime)\<close> is \<^verbatim>\<open>NaN\<close>, which is what a missing or
  non-numeric parameter gives, the timestamp of the request is 0 and \<^verbatim>\<open>add\<close> does exactly
  what it does for a request that says 0: it parks the response when
  \<^verbatim>\<open>lastMessageTime\<close> is 0 and answers at once otherwise.
\<close>

theorem malformed_is_zero:
  assumes "Number_lastMessageTime rq = NaN"
  shows "queryMessageTime rq = Finite 0 \<and>
         add rq r w = add \<lparr>Number_lastMessageTime = Finite 0\<rparr> r w \<and>
         (lastMessageTime w = 0 \<longrightarrow>
            (\<exists>w'. add rq r w = Returned w' \<and> priv_responses w' = priv_responses w @ [r])) \<and>
         (lastMessageTime w \<noteq> 0 \<longrightarrow> add rq r w = json r (lastMessage w) w)"
proof -
  have q: "queryMessageTime rq = Finite 0"
    using assms by (simp add: queryMessageTime_def or_js_def truthy_def)
  have q0: "queryMessageTime \<lparr>Number_lastMessageTime = Finite 0\<rparr> = Finite 0"
    by (simp add: queryMessageTime_def or_js_def truthy_def)
  have e: "add rq r w = add \<lparr>Number_lastMessageTime = Finite 0\<rparr> r w"
    by (simp add: add_def q q0)
  have park: "\<exists>w'. add rq r w = Returned w' \<and> priv_responses w' = priv_responses w @ [r]"
    if "lastMessageTime w = 0"
  proof -
    have "\<not> neq_js (queryMessageTime rq) (Finite (of_int (lastMessageTime w)))"
      using that q by (simp add: neq_js_def)
    from add_park_eq [OF this, of r] show ?thesis by blast
  qed
  have caught: "add rq r w = json r (lastMessage w) w" if "lastMessageTime w \<noteq> 0"
    using that q by (simp add: add_def neq_js_def lastMessage_def)
  from q e park caught show ?thesis by blast
qed

text \<open>
  C5 at two concrete states: before any broadcast, and after \<open>''A''\<close> was broadcast at
  time 100.
\<close>

theorem malformed_is_zero_witness:
  "Number_lastMessageTime \<lparr>Number_lastMessageTime = NaN\<rparr> = NaN \<and>
   queryMessageTime \<lparr>Number_lastMessageTime = NaN\<rparr> = Finite 0 \<and>
   lastMessageTime (start :: string world) = 0 \<and>
   lastMessageTime (run [Broadcast (Serialisable ''A'') 100] start) \<noteq> 0 \<and>
   (\<exists>w'. add \<lparr>Number_lastMessageTime = NaN\<rparr> 7 (start :: string world) = Returned w' \<and>
      priv_responses w' = [7]) \<and>
   add \<lparr>Number_lastMessageTime = NaN\<rparr> 7 (run [Broadcast (Serialisable ''A'') 100] start)
     = json 7 (Some \<lparr>message = Serialisable ''A'', time = 100\<rparr>) (run [Broadcast (Serialisable ''A'') 100] start)"
proof -
  let ?rq = "\<lparr>Number_lastMessageTime = NaN\<rparr>"
  let ?fresh = "start :: string world"
  let ?later = "run [Broadcast (Serialisable ''A'') 100] start :: string world"
  have h: "Number_lastMessageTime ?rq = NaN" by simp
  have p: "lastMessageTime ?fresh = 0" "lastMessageTime ?later \<noteq> 0" "priv_responses ?fresh = []"
    "lastMessage ?later = Some \<lparr>message = Serialisable ''A'', time = 100\<rparr>"
    by (simp_all add: run_simps lastMessage_def)
  note a = malformed_is_zero [OF h, of 7 ?fresh] and b = malformed_is_zero [OF h, of 7 ?later]
  from a have q: "queryMessageTime ?rq = Finite 0" by blast
  from a have "lastMessageTime ?fresh = 0 \<longrightarrow>
      (\<exists>w'. add ?rq 7 ?fresh = Returned w' \<and> priv_responses w' = priv_responses ?fresh @ [7])"
    by blast
  with p have park: "\<exists>w'. add ?rq 7 ?fresh = Returned w' \<and> priv_responses w' = [7]"
    by simp
  from b have "lastMessageTime ?later \<noteq> 0 \<longrightarrow> add ?rq 7 ?later = json 7 (lastMessage ?later) ?later"
    by blast
  with p have caught: "add ?rq 7 ?later = json 7 (Some \<lparr>message = Serialisable ''A'', time = 100\<rparr>) ?later"
    by simp
  from h q p(1,2) park caught show ?thesis by blast
qed

subsection \<open>C6: a disconnect removes the response\<close>

text \<open>
  C6. In every state that a run of the class reaches, when \<^verbatim>\<open>finish\<close> or \<^verbatim>\<open>close\<close> fires
  on a response, the response is no longer in the array (the other entries stay, in
  order) and it has no listener left for either event. Firing either event on it again
  changes nothing at all. A broadcast after that returns normally, does not touch the
  response and logs no error for it.
\<close>

theorem disconnect_cleanup:
  assumes "w = run ops start" and "w' = emit r ev w"
  shows "priv_responses w' = removeAll r (priv_responses w) \<and>
         listeners (heap w' r) Finish = [] \<and>
         listeners (heap w' r) Close = [] \<and>
         emit r ev' w' = w' \<and>
         (\<exists>w''. broadcast m now w' = Returned w'' \<and>
                heap w'' r = heap w' r \<and>
                HeadersSent r \<notin> set (drop (length (console w')) (console w'')) \<and>
                TypeError r \<notin> set (drop (length (console w')) (console w'')))"
proof -
  have c: "consistent w"
    unfolding assms(1) by (rule consistent_run) (rule consistent_start)
  have p: "priv_responses w' = removeAll r (priv_responses w)"
    unfolding assms(2) by (rule emit_responses [OF c])
  have l: "listeners (heap w' r) e = []" for e
    unfolding assms(2) by (simp add: emit_listeners [OF c])
  have n: "emit r ev' w' = w'"
    by (simp add: emit_def l)
  let ?later = "w'\<lparr>priv_lastMessage := Some \<lparr>message = m, time = now\<rparr>\<rparr>"
  let ?w2 = "fanout (priv_responses w') ?later"
  have b: "broadcast m now w' = Returned ?w2"
    by (rule broadcast_eq)
  have out: "r \<notin> set (priv_responses w')"
    by (simp add: p)
  have h: "heap ?w2 r = heap w' r"
    using fanout_heap_other [OF out, of ?later] by simp
  let ?new = "failures (priv_responses w') (\<lambda>r. headersSent (heap ?later r))
      (stringifies (priv_lastMessage ?later))"
  have new: "drop (length (console w')) (console ?w2) = ?new"
    using fanout_console [of "priv_responses w'" ?later] by simp
  have d: "HeadersSent r \<notin> set (drop (length (console w')) (console ?w2))"
    unfolding new using failures_set [of "HeadersSent r" "priv_responses w'"] out by auto
  have e: "TypeError r \<notin> set (drop (length (console w')) (console ?w2))"
    unfolding new using failures_set [of "TypeError r" "priv_responses w'"] out by auto
  from p l n b h d e show ?thesis by blast
qed

text \<open>
  C6 at a concrete state: responses 7 and 8 are parked, then \<^verbatim>\<open>close\<close> fires on 7.
\<close>

theorem disconnect_cleanup_witness:
  "priv_responses (run [Add \<lparr>Number_lastMessageTime = Finite 0\<rparr> 7,
                        Add \<lparr>Number_lastMessageTime = Finite 0\<rparr> 8] (start :: string world)) = [7, 8] \<and>
   priv_responses (emit 7 Close (run [Add \<lparr>Number_lastMessageTime = Finite 0\<rparr> 7,
                        Add \<lparr>Number_lastMessageTime = Finite 0\<rparr> 8] (start :: string world))) = [8] \<and>
   listeners (heap (emit 7 Close (run [Add \<lparr>Number_lastMessageTime = Finite 0\<rparr> 7,
                        Add \<lparr>Number_lastMessageTime = Finite 0\<rparr> 8] (start :: string world))) 7) Finish = [] \<and>
   emit 7 Finish (emit 7 Close (run [Add \<lparr>Number_lastMessageTime = Finite 0\<rparr> 7,
                        Add \<lparr>Number_lastMessageTime = Finite 0\<rparr> 8] (start :: string world)))
     = emit 7 Close (run [Add \<lparr>Number_lastMessageTime = Finite 0\<rparr> 7,
                        Add \<lparr>Number_lastMessageTime = Finite 0\<rparr> 8] (start :: string world)) \<and>
   returned (broadcast (Serialisable ''A'') 100 (emit 7 Close (run [Add \<lparr>Number_lastMessageTime = Finite 0\<rparr> 7,
                        Add \<lparr>Number_lastMessageTime = Finite 0\<rparr> 8] (start :: string world))))"
proof -
  let ?w = "run [Add \<lparr>Number_lastMessageTime = Finite 0\<rparr> 7,
                 Add \<lparr>Number_lastMessageTime = Finite 0\<rparr> 8] start :: string world"
  have p: "priv_responses ?w = [7, 8]"
    by (simp add: run_simps)
  note t = disconnect_cleanup [OF refl refl, of 7 Close "[Add \<lparr>Number_lastMessageTime = Finite 0\<rparr> 7,
                 Add \<lparr>Number_lastMessageTime = Finite 0\<rparr> 8] :: string op list" Finish "Serialisable ''A''" 100]
  from t have "priv_responses (emit 7 Close ?w) = removeAll 7 (priv_responses ?w)" by blast
  with p have a: "priv_responses (emit 7 Close ?w) = [8]" by simp
  from t have b: "listeners (heap (emit 7 Close ?w) 7) Finish = []" by blast
  from t have c: "emit 7 Finish (emit 7 Close ?w) = emit 7 Close ?w" by blast
  from t obtain w'' where "broadcast (Serialisable ''A'') 100 (emit 7 Close ?w) = Returned w''" by blast
  then have d: "returned (broadcast (Serialisable ''A'') 100 (emit 7 Close ?w))" by simp
  from p a b c d show ?thesis by blast
qed

subsection \<open>C7: a response is in the array at most once\<close>

text \<open>
  C7, as amended. In every state reached by a run of broadcasts, requests, events and
  responses completed elsewhere, in which no call of \<^verbatim>\<open>add\<close> passes a response that is in
  the array at that moment, every response is in the array at most once.
\<close>

theorem pool_distinct:
  "no_repark ops start \<Longrightarrow> distinct (priv_responses (run ops start))"
  by (rule distinct_run [OF consistent_start]) (simp_all add: start_def constructor_def)

text \<open>
  C7 at a concrete run: 7 is parked, receives a broadcast, finishes, and comes back
  together with 8.
\<close>

theorem pool_distinct_witness:
  "no_repark [Add \<lparr>Number_lastMessageTime = Finite 0\<rparr> 7, Broadcast (Serialisable ''A'') 100, Emit 7 Finish,
              Add \<lparr>Number_lastMessageTime = Finite 100\<rparr> 7,
              Add \<lparr>Number_lastMessageTime = Finite 100\<rparr> 8] start \<and>
   distinct (priv_responses (run [Add \<lparr>Number_lastMessageTime = Finite 0\<rparr> 7, Broadcast (Serialisable ''A'') 100,
              Emit 7 Finish, Add \<lparr>Number_lastMessageTime = Finite 100\<rparr> 7,
              Add \<lparr>Number_lastMessageTime = Finite 100\<rparr> 8] start))"
proof -
  let ?ops = "[Add \<lparr>Number_lastMessageTime = Finite 0\<rparr> 7, Broadcast (Serialisable ''A'') 100, Emit 7 Finish,
              Add \<lparr>Number_lastMessageTime = Finite 100\<rparr> 7,
              Add \<lparr>Number_lastMessageTime = Finite 100\<rparr> 8] :: string op list"
  have h: "no_repark ?ops start"
    by (simp add: event_simps)
  from pool_distinct [OF h] h show ?thesis by simp
qed

text \<open>
  C7 as stated fails: \<^verbatim>\<open>add\<close> does not look for the response in the array, so two
  requests on the same response, both up to date, put it there twice.
\<close>

theorem pool_distinct_counterexample:
  "\<not> distinct (priv_responses (run [Add \<lparr>Number_lastMessageTime = Finite 0\<rparr> 7,
                                    Add \<lparr>Number_lastMessageTime = Finite 0\<rparr> 7]
                                   (start :: string world)))"
  by (simp add: run_simps)

subsection \<open>C8: the stored timestamp is the reading of the clock\<close>

text \<open>
  C8, as amended. Right after each broadcast \<^verbatim>\<open>lastMessageTime\<close> returns the value that
  \<^verbatim>\<open>Date.now()\<close> gave to that broadcast; so the stored timestamps of a run are
  non-decreasing when the readings of the clock are. Whatever the clock does,
  \<^verbatim>\<open>lastMessageTime\<close> is 0 as long as nothing has been broadcast, and the reading of the
  most recent broadcast afterwards.
\<close>

theorem timestamps_follow_clock:
  "(sorted (clock_readings ops) \<longrightarrow> sorted (stored_times ops start)) \<and>
   stored_times ops start = clock_readings ops \<and>
   lastMessageTime (run ops start) =
     (if clock_readings ops = [] then 0 else last (clock_readings ops))"
proof -
  have z: "lastMessageTime (start :: 'a world) = 0"
    by (simp add: lastMessageTime_def start_def constructor_def)
  show ?thesis by (simp add: stored_times_eq run_lastMessageTime z)
qed

text \<open>
  C8 at three concrete runs: broadcasts at 100 and 150; a run without any broadcast; and
  broadcasts at 100 and 50, where the accessor returns 50.
\<close>

theorem timestamps_follow_clock_witness:
  "sorted (clock_readings [Add \<lparr>Number_lastMessageTime = Finite 0\<rparr> 7,
                            Broadcast (Serialisable ''A'') 100,
                            Broadcast (Serialisable ''B'') 150]) \<and>
   sorted (stored_times [Add \<lparr>Number_lastMessageTime = Finite 0\<rparr> 7,
                         Broadcast (Serialisable ''A'') 100,
                         Broadcast (Serialisable ''B'') 150] start) \<and>
   stored_times [Add \<lparr>Number_lastMessageTime = Finite 0\<rparr> 7,
                 Broadcast (Serialisable ''A'') 100,
                 Broadcast (Serialisable ''B'') 150] start = [100, 150] \<and>
   lastMessageTime (run [Add \<lparr>Number_lastMessageTime = Finite 0\<rparr> 7,
                         Broadcast (Serialisable ''A'') 100,
                         Broadcast (Serialisable ''B'') 150] start) = 150 \<and>
   lastMessageTime (run [Add \<lparr>Number_lastMessageTime = Finite 0\<rparr> 7] (start :: string world)) = 0 \<and>
   lastMessageTime (run [Broadcast (Serialisable ''A'') 100,
                         Broadcast (Serialisable ''B'') 50] start) = 50"
proof -
  let ?ops = "[Add \<lparr>Number_lastMessageTime = Finite 0\<rparr> 7, Broadcast (Serialisable ''A'') 100,
               Broadcast (Serialisable ''B'') 150] :: string op list"
  let ?parked = "[Add \<lparr>Number_lastMessageTime = Finite 0\<rparr> 7] :: string op list"
  let ?rewound = "[Broadcast (Serialisable ''A'') 100, Broadcast (Serialisable ''B'') 50] :: string op list"
  have h: "sorted (clock_readings ?ops)" by simp
  note t = timestamps_follow_clock [of ?ops] and tp = timestamps_follow_clock [of ?parked]
    and tb = timestamps_follow_clock [of ?rewound]
  from t h have s: "sorted (stored_times ?ops start)" by blast
  from t have "stored_times ?ops start = clock_readings ?ops" by blast
  then have a: "stored_times ?ops start = [100, 150]"
    by (simp only: clock_readings.simps)
  from t have "lastMessageTime (run ?ops start) =
      (if clock_readings ?ops = [] then 0 else last (clock_readings ?ops))" by blast
  then have b: "lastMessageTime (run ?ops start) = 150" by simp
  from tp have "lastMessageTime (run ?parked start) =
      (if clock_readings ?parked = [] then 0 else last (clock_readings ?parked))" by blast
  then have c: "lastMessageTime (run ?parked start) = 0" by simp
  from tb have "lastMessageTime (run ?rewound start) =
      (if clock_readings ?rewound = [] then 0 else last (clock_readings ?rewound))" by blast
  then have d: "lastMessageTime (run ?rewound start) = 50" by simp
  from h s a b c d show ?thesis by blast
qed

text \<open>
  C8 as stated fails: \<^verbatim>\<open>broadcast\<close> stores what the wall clock says and compares it with
  nothing. When the clock is set back between two broadcasts, the stored timestamps
  decrease.
\<close>

theorem timestamps_follow_clock_counterexample:
  "stored_times [Broadcast (Serialisable ''A'') 100, Broadcast (Serialisable ''B'') 50] start = [100, 50] \<and>
   \<not> sorted (stored_times [Broadcast (Serialisable ''A'') 100, Broadcast (Serialisable ''B'') 50] start)"
  by (simp add: run_simps fanout_frame)

subsection \<open>C9: answering at once changes nothing in the broadcaster\<close>

text \<open>
  C9. When the timestamp of the request differs from \<^verbatim>\<open>lastMessageTime\<close>, \<^verbatim>\<open>add\<close> leaves
  the array and the latest message as they were and registers no listener on any
  response, whether \<^verbatim>\<open>res.json\<close> returns or throws.
\<close>

theorem caught_up_frame:
  assumes "queryMessageTime rq \<noteq> Finite (of_int (lastMessageTime w))"
  shows "priv_responses (world_of (add rq r w)) = priv_responses w \<and>
         priv_lastMessage (world_of (add rq r w)) = priv_lastMessage w \<and>
         (\<forall>h. listeners (heap (world_of (add rq r w)) h) = listeners (heap w h))"
  using assms by (simp add: add_def neq_js_query json_frame)

text \<open>
  C9 at a concrete state: after \<open>''A''\<close> was broadcast at time 100, a request with
  timestamp 0 arrives on response 8.
\<close>

theorem caught_up_frame_witness:
  "queryMessageTime \<lparr>Number_lastMessageTime = Finite 0\<rparr>
     \<noteq> Finite (of_int (lastMessageTime (run [Broadcast (Serialisable ''A'') 100] start))) \<and>
   priv_responses (world_of (add \<lparr>Number_lastMessageTime = Finite 0\<rparr> 8
      (run [Broadcast (Serialisable ''A'') 100] start))) = [] \<and>
   priv_lastMessage (world_of (add \<lparr>Number_lastMessageTime = Finite 0\<rparr> 8
      (run [Broadcast (Serialisable ''A'') 100] start))) = Some \<lparr>message = Serialisable ''A'', time = 100\<rparr> \<and>
   listeners (heap (world_of (add \<lparr>Number_lastMessageTime = Finite 0\<rparr> 8
      (run [Broadcast (Serialisable ''A'') 100] start))) 8) Finish = []"
proof -
  let ?w = "run [Broadcast (Serialisable ''A'') 100] start :: string world"
  let ?rq = "\<lparr>Number_lastMessageTime = Finite 0\<rparr>"
  have h: "queryMessageTime ?rq \<noteq> Finite (of_int (lastMessageTime ?w))"
    by (simp add: run_simps)
  have p: "priv_responses ?w = []" "priv_lastMessage ?w = Some \<lparr>message = Serialisable ''A'', time = 100\<rparr>"
    "listeners (heap ?w 8) Finish = []"
    by (simp_all add: run_simps fanout_frame)
  show ?thesis using caught_up_frame [OF h, of 8] h p by simp
qed

subsection \<open>C10: a broadcast removes nothing from the array\<close>

text \<open>
  C10. After the loop of \<^verbatim>\<open>broadcast\<close>, from whichever index it starts, and so after
  \<^verbatim>\<open>broadcast\<close> itself, the array is what it was before. More generally every step that is
  not the firing of \<^verbatim>\<open>finish\<close> or \<^verbatim>\<open>close\<close> keeps all entries of the array, in place:
  entries leave only through \<^verbatim>\<open>connectionEnded\<close>.
\<close>

theorem broadcast_keeps_pool:
  "priv_responses (world_of (for_of i w)) = priv_responses w \<and>
   priv_responses (world_of (broadcast m now w)) = priv_responses w \<and>
   ((\<forall>r ev. op \<noteq> Emit r ev) \<longrightarrow> (\<exists>rs. priv_responses (step op w) = priv_responses w @ rs))"
proof -
  have a: "priv_responses (world_of (for_of i w)) = priv_responses w"
    by (simp add: for_of_fanout fanout_frame)
  have b: "priv_responses (world_of (broadcast m now w)) = priv_responses w"
    by (simp add: broadcast_eq fanout_frame)
  have c: "\<exists>rs. priv_responses (step op w) = priv_responses w @ rs" if "\<forall>r ev. op \<noteq> Emit r ev"
  proof (cases op)
    case (Broadcast m' now')
    then show ?thesis by (simp add: broadcast_eq fanout_frame)
  next
    case (Add rq r)
    with add_responses [of rq r w] show ?thesis by auto
  next
    case (Emit r ev)
    with that show ?thesis by simp
  next
    case (Respond r)
    then show ?thesis by (simp add: respond_elsewhere_def)
  qed
  from a b c show ?thesis by blast
qed

text \<open>
  C10 at a concrete state: responses 7 and 8 are parked; a broadcast and a further
  request keep them.
\<close>

theorem broadcast_keeps_pool_witness:
  "priv_responses (run [Add \<lparr>Number_lastMessageTime = Finite 0\<rparr> 7,
                        Add \<lparr>Number_lastMessageTime = Finite 0\<rparr> 8] (start :: string world)) = [7, 8] \<and>
   priv_responses (world_of (broadcast (Serialisable ''A'') 100
      (run [Add \<lparr>Number_lastMessageTime = Finite 0\<rparr> 7,
            Add \<lparr>Number_lastMessageTime = Finite 0\<rparr> 8] start))) = [7, 8] \<and>
   (\<forall>r ev. Add \<lparr>Number_lastMessageTime = Finite 0\<rparr> 9 \<noteq> (Emit r ev :: string op)) \<and>
   (\<exists>rs. priv_responses (step (Add \<lparr>Number_lastMessageTime = Finite 0\<rparr> 9)
      (run [Add \<lparr>Number_lastMessageTime = Finite 0\<rparr> 7,
            Add \<lparr>Number_lastMessageTime = Finite 0\<rparr> 8] (start :: string world))) = [7, 8] @ rs)"
proof -
  let ?w = "run [Add \<lparr>Number_lastMessageTime = Finite 0\<rparr> 7,
                 Add \<lparr>Number_lastMessageTime = Finite 0\<rparr> 8] start :: string world"
  let ?op = "Add \<lparr>Number_lastMessageTime = Finite 0\<rparr> 9 :: string op"
  have p: "priv_responses ?w = [7, 8]"
    by (simp add: run_simps)
  have h: "\<forall>r ev. ?op \<noteq> Emit r ev" by simp
  note t = broadcast_keeps_pool [of 0 ?w "Serialisable ''A''" 100 ?op]
  from t p have a: "priv_responses (world_of (broadcast (Serialisable ''A'') 100 ?w)) = [7, 8]" by simp
  from t h have "\<exists>rs. priv_responses (step ?op ?w) = priv_responses ?w @ rs" by blast
  with p have b: "\<exists>rs. priv_responses (step ?op ?w) = [7, 8] @ rs" by simp
  from p a h b show ?thesis by blast
qed

end
